theory Spec2Isabelle
  imports Main "HOL-Library.Word"
begin

section \<open>The loader driver of stm32ld (main.c)\<close>

text \<open>
  The driver parses its arguments, opens the firmware file, connects to the STM32 ROM
  bootloader over the UART and runs the fixed sequence: get version, get chip ID, write
  unprotect, erase, program, go. The bootloader commands themselves (\<open>stm32_init\<close>,
  \<open>stm32_get_version\<close>, ...) live in stm32ld.c, which the driver only calls; their
  results are inputs of the model, collected in the record \<open>device\<close>. Integer widths are
  those of the usual targets: \<open>int\<close> and \<open>unsigned\<close> have 32 bits, \<open>u32\<close> is a 32-bit
  unsigned type, \<open>u8\<close> an 8-bit one.
\<close>

type_synonym u8 = "8 word"
type_synonym u16 = "16 word"
type_synonym u32 = "32 word"

subsection \<open>Constants\<close>

definition BL_VERSION_MAJOR :: int where
  "BL_VERSION_MAJOR = 2"

definition BL_VERSION_MINOR :: int where
  "BL_VERSION_MINOR = 1"

definition BL_MKVER :: "int \<Rightarrow> int \<Rightarrow> int" where
  "BL_MKVER major minor = major * 256 + minor"

definition BL_MINVERSION :: int where
  "BL_MINVERSION = BL_MKVER BL_VERSION_MAJOR BL_VERSION_MINOR"

definition SUPPORTED_CHIP_IDS :: "u16 list" where
  "SUPPORTED_CHIP_IDS = [0x0410, 0x0414, 0x0413, 0x0440, 0]"

definition INT_MAX :: int where
  "INT_MAX = 2147483647"

subsection \<open>Faults, errors, outcomes and events\<close>

text \<open>
  A fault is behaviour the C standard leaves undefined and a real machine answers with a
  trap or with garbage: it ends the run. An error is one of the driver's own
  \<open>exit(1)\<close> branches, named after the message that branch prints.
\<close>

datatype fault = DivByZero | SignedOverflow | OutOfBounds | NullFile

datatype error =
    NoPort | NoBinFile | FileOpenFailed | ConnectTimeout
  | GetVersionFailed | VersionUnsupported | GetChipIdFailed | ChipUnsupported
  | WriteUnprotectFailed | ExtendedEraseFailed | EraseFailed | ProgramFailed | GoFailed

datatype outcome = Return0 | Exit1 error | Crash fault

text \<open>What \<open>stm32_write_flash\<close> did while it ran: the write-memory commands it sent (address,
  data, acknowledged or not) and its calls of the progress callback (the argument, and the
  threshold the callback printed, if any).\<close>

datatype wf_event =
    WriteMemory u32 "u8 list" bool
  | Progress u32 "int option"

type_synonym wf_result = "wf_event list \<times> (fault + bool)"

text \<open>The calls the driver makes, in order, each with its result (\<open>True\<close> is \<open>STM32_OK\<close>,
  or a file that opened).\<close>

datatype event =
    EvFopen string bool
  | EvInit bool
  | EvSleep nat
  | EvGetVersion "(u8 \<times> u8) option"
  | EvGetChipId "u16 option"
  | EvWriteUnprotect bool
  | EvExtendedErase bool
  | EvErase bool
  | EvWriteFlash "wf_event list" "bool option"
  | EvFclose
  | EvGo bool

subsection \<open>The firmware file\<close>

record file_state =
  contents :: "u8 list"
  pos :: nat
  eof :: bool

definition fread :: "file_state \<Rightarrow> nat \<Rightarrow> u8 list \<times> file_state" where
  "fread f len =
     (let chunk = take len (drop (pos f) (contents f))
      in (chunk, f\<lparr>pos := pos f + length chunk, eof := eof f \<or> length chunk < len\<rparr>))"

text \<open>\<open>fseek(fp, 0, SEEK_END); fpsize = ftell(fp); fseek(fp, 0, SEEK_SET);\<close> The size is a
  \<open>long\<close> stored into a \<open>u32\<close>: it is cut to 32 bits.\<close>

definition ftell_end :: "u8 list \<Rightarrow> u32" where
  "ftell_end cs = word_of_nat (length cs)"

definition rewound :: "u8 list \<Rightarrow> file_state" where
  "rewound cs = \<lparr>contents = cs, pos = 0, eof = False\<rparr>"

text \<open>The file-scope variables \<open>fp\<close> and \<open>fpsize\<close>; statics start as \<open>NULL\<close> and 0.\<close>

record globals =
  fp :: "file_state option"
  fpsize :: u32

definition globals0 :: globals where
  "globals0 = \<lparr>fp = None, fpsize = 0\<rparr>"

subsection \<open>Helper functions\<close>

text \<open>\<open>writeh_read_data\<close>: the bytes stored at \<open>dst\<close>, the count returned, the file after.\<close>

definition writeh_read_data :: "file_state \<Rightarrow> u32 \<Rightarrow> (u8 list \<times> u32) \<times> file_state" where
  "writeh_read_data f len =
     (if \<not> eof f
      then (case fread f (unat len) of (chunk, f') \<Rightarrow> ((chunk, word_of_nat (length chunk)), f'))
      else (([], 0), f))"

text \<open>
  \<open>writeh_progress\<close>: \<open>wrote * 100\<close> is computed in \<open>u32\<close> and wraps; the division traps
  when \<open>fpsize\<close> is 0; in \<open>pwrite >= expected_next\<close> the \<open>int\<close> is converted to
  \<open>unsigned\<close>. The static \<open>expected_next\<close> is passed in and returned; the result also
  carries the threshold printed, if any.
\<close>

definition writeh_progress :: "u32 \<Rightarrow> u32 \<Rightarrow> int \<Rightarrow> fault + (int option \<times> int)" where
  "writeh_progress fpsz wrote expected_next =
     (if fpsz = 0 then Inl DivByZero
      else
        let pwrite = (wrote * 100) div fpsz
        in if uint pwrite \<ge> expected_next mod 2 ^ 32
           then (if expected_next + 10 > INT_MAX then Inl SignedOverflow
                 else Inr (Some expected_next, expected_next + 10))
           else Inr (None, expected_next))"

subsection \<open>The driver's inputs\<close>

text \<open>\<open>ProgParam\<close> as \<open>Cli_parseArgs\<close> leaves it. The strings are C strings without their
  terminating NUL, so \<open>port[0] == 0\<close> says that \<open>port\<close> is empty; \<open>bin_file\<close> is the
  field \<open>file\<close>.\<close>

record params =
  port :: string
  bin_file :: string
  baudrate :: int
  skip_flash :: u8
  send_go :: u8

text \<open>What the world answers: the result of the k-th call of \<open>stm32_init\<close> (counted from
  0), of each bootloader command, and of \<open>fopen\<close>. \<open>stm32_write_flash\<close> is given the two
  callbacks of this file; what it does with them depends on \<open>fpsize\<close> and the file they
  read.\<close>

record device =
  stm32_init :: "string \<Rightarrow> int \<Rightarrow> nat \<Rightarrow> bool"
  stm32_get_version :: "(u8 \<times> u8) option"
  stm32_get_chip_id :: "u16 option"
  stm32_write_unprotect :: bool
  stm32_extended_erase_flash :: bool
  stm32_erase_flash :: bool
  stm32_write_flash :: "u32 \<Rightarrow> file_state \<Rightarrow> wf_result"
  stm32_go_command :: bool
  fopen :: "string \<Rightarrow> u8 list option"

subsection \<open>Sequencing\<close>

text \<open>A step of the driver yields the calls it made and either the outcome that ended
  the run or a value to go on with.\<close>

type_synonym 'a step = "event list \<times> (outcome + 'a)"

definition bind_step :: "'a step \<Rightarrow> ('a \<Rightarrow> 'b step) \<Rightarrow> 'b step" where
  "bind_step m f =
     (case m of
        (tr, Inl out) \<Rightarrow> (tr, Inl out)
      | (tr, Inr x) \<Rightarrow> (case f x of (tr', r) \<Rightarrow> (tr @ tr', r)))"

text \<open>A bootloader command whose failure is fatal.\<close>

definition command :: "(bool \<Rightarrow> event) \<Rightarrow> bool \<Rightarrow> error \<Rightarrow> unit step" where
  "command ev ok err = (if \<not> ok then ([ev False], Inl (Exit1 err)) else ([ev True], Inr ()))"

subsection \<open>main\<close>

definition strlen :: "string \<Rightarrow> nat" where
  "strlen s = length s"

definition strncmp_equal :: "string \<Rightarrow> string \<Rightarrow> nat \<Rightarrow> bool" where
  "strncmp_equal a b n = (take n a = take n b)"

text \<open>Check Parameters: yields \<open>skip_flash\<close> and the globals as the checks leave them.\<close>

definition check_params :: "params \<Rightarrow> device \<Rightarrow> (u8 \<times> globals) step" where
  "check_params p d =
     (if port p = [] then ([], Inl (Exit1 NoPort))
      else if skip_flash p = 0 then
        (if port p = [] then ([], Inl (Exit1 NoBinFile))
         else if strlen (bin_file p) = 1 \<and> strncmp_equal (bin_file p) ''0'' 1
         then ([], Inr (1, globals0))
         else (case fopen d (bin_file p) of
                 None \<Rightarrow> ([EvFopen (bin_file p) False], Inl (Exit1 FileOpenFailed))
               | Some cs \<Rightarrow>
                   ([EvFopen (bin_file p) True],
                    Inr (skip_flash p, \<lparr>fp = Some (rewound cs), fpsize = ftell_end cs\<rparr>))))
      else ([], Inr (skip_flash p, globals0)))"

text \<open>1. Open UART and try connect to bootloader. \<open>timeout\<close> is the static counter; it
  counts the failed calls, so the next call of \<open>stm32_init\<close> is call number \<open>timeout\<close>.\<close>

function connect :: "(nat \<Rightarrow> bool) \<Rightarrow> int \<Rightarrow> unit step" where
  "connect init timeout =
     (if init (nat timeout) then ([EvInit True], Inr ())
      else
        let timeout' = timeout + 1
        in if timeout' > 60
           then ([EvInit False, EvSleep 1], Inl (Exit1 ConnectTimeout))
           else bind_step ([EvInit False, EvSleep 1], Inr ()) (\<lambda>_. connect init timeout'))"
  by pat_completeness auto
termination
  by (relation "measure (\<lambda>(init, timeout). nat (61 - timeout))") auto

text \<open>2. Get version\<close>

definition version_step :: "device \<Rightarrow> (u8 \<times> u8) step" where
  "version_step d =
     (case stm32_get_version d of
        None \<Rightarrow> ([EvGetVersion None], Inl (Exit1 GetVersionFailed))
      | Some (major, minor) \<Rightarrow>
          if BL_MKVER (uint major) (uint minor) < BL_MINVERSION
          then ([EvGetVersion (Some (major, minor))], Inl (Exit1 VersionUnsupported))
          else ([EvGetVersion (Some (major, minor))], Inr (major, minor)))"

text \<open>3. Get chip ID. The \<open>while\<close> loop walks \<open>chip_ids\<close> up the array until it points at
  the 0 that ends it or at \<open>version\<close>; the result is where it stops.\<close>

function chip_scan :: "u16 list \<Rightarrow> nat \<Rightarrow> u16 \<Rightarrow> fault + nat" where
  "chip_scan ids i version =
     (if i \<ge> length ids then Inl OutOfBounds
      else if ids ! i \<noteq> 0
      then (if ids ! i = version then Inr i else chip_scan ids (i + 1) version)
      else Inr i)"
  by pat_completeness auto
termination
  by (relation "measure (\<lambda>(ids, i, version). length ids - i)") auto

definition chip_id_step :: "device \<Rightarrow> unit step" where
  "chip_id_step d =
     (case stm32_get_chip_id d of
        None \<Rightarrow> ([EvGetChipId None], Inl (Exit1 GetChipIdFailed))
      | Some version \<Rightarrow>
          (case chip_scan SUPPORTED_CHIP_IDS 0 version of
             Inl flt \<Rightarrow> ([EvGetChipId (Some version)], Inl (Crash flt))
           | Inr i \<Rightarrow>
               if SUPPORTED_CHIP_IDS ! i = 0
               then ([EvGetChipId (Some version)], Inl (Exit1 ChipUnsupported))
               else ([EvGetChipId (Some version)], Inr ())))"

text \<open>Write unprotect, erase flash, program flash: the body of
  \<open>if (ProgParam.skip_flash == 0)\<close>.\<close>

definition erase_step :: "device \<Rightarrow> u8 \<Rightarrow> unit step" where
  "erase_step d major =
     (if major = 3
      then command EvExtendedErase (stm32_extended_erase_flash d) ExtendedEraseFailed
      else command EvErase (stm32_erase_flash d) EraseFailed)"

definition program_step :: "device \<Rightarrow> globals \<Rightarrow> unit step" where
  "program_step d g =
     (case fp g of
        None \<Rightarrow> ([], Inl (Crash NullFile))
      | Some f \<Rightarrow>
          (case stm32_write_flash d (fpsize g) f of
             (evs, Inl flt) \<Rightarrow> ([EvWriteFlash evs None], Inl (Crash flt))
           | (evs, Inr ok) \<Rightarrow>
               if \<not> ok then ([EvWriteFlash evs (Some False)], Inl (Exit1 ProgramFailed))
               else ([EvWriteFlash evs (Some True), EvFclose], Inr ())))"

definition flash_step :: "device \<Rightarrow> u8 \<Rightarrow> globals \<Rightarrow> unit step" where
  "flash_step d major g =
     bind_step (command EvWriteUnprotect (stm32_write_unprotect d) WriteUnprotectFailed) (\<lambda>_.
     bind_step (erase_step d major) (\<lambda>_.
     program_step d g))"

text \<open>Run GO\<close>

definition go_step :: "params \<Rightarrow> device \<Rightarrow> unit step" where
  "go_step p d =
     (if send_go p = 1 then command EvGo (stm32_go_command d) GoFailed else ([], Inr ()))"

definition finish :: "unit step \<Rightarrow> event list \<times> outcome" where
  "finish m = (case m of (tr, Inl out) \<Rightarrow> (tr, out) | (tr, Inr _) \<Rightarrow> (tr, Return0))"

definition main :: "params \<Rightarrow> device \<Rightarrow> event list \<times> outcome" where
  "main p d =
     finish
      (bind_step (check_params p d) (\<lambda>(skip, g).
       bind_step (connect (stm32_init d (port p) (baudrate p)) 0) (\<lambda>_.
       bind_step (version_step d) (\<lambda>(major, minor).
       bind_step (chip_id_step d) (\<lambda>_.
       bind_step (if skip = 0 then flash_step d major g else ([], Inr ())) (\<lambda>_.
       go_step p d))))))"

subsection \<open>Sequences of progress callbacks\<close>

text \<open>The callback is called once after each block written. \<open>progress_calls\<close> runs
  \<open>writeh_progress\<close> on the successive values of \<open>wrote\<close>, threading the static
  \<open>expected_next\<close>, and collects the thresholds printed.\<close>

fun progress_calls :: "u32 \<Rightarrow> int \<Rightarrow> u32 list \<Rightarrow> fault + (int list \<times> int)" where
  "progress_calls fpsz expected_next [] = Inr ([], expected_next)"
| "progress_calls fpsz expected_next (wrote # ws) =
     (case writeh_progress fpsz wrote expected_next of
        Inl flt \<Rightarrow> Inl flt
      | Inr (printed, expected_next') \<Rightarrow>
          (case progress_calls fpsz expected_next' ws of
             Inl flt \<Rightarrow> Inl flt
           | Inr (out, e) \<Rightarrow> Inr ((case printed of None \<Rightarrow> [] | Some t \<Rightarrow> [t]) @ out, e)))"

text \<open>The thresholds printed by a fresh run (\<open>expected_next\<close> starts at 10).\<close>

definition printed_thresholds :: "u32 \<Rightarrow> u32 list \<Rightarrow> int list option" where
  "printed_thresholds fpsz ws =
     (case progress_calls fpsz 10 ws of Inl _ \<Rightarrow> None | Inr (out, _) \<Rightarrow> Some out)"

fun nondecreasing :: "u32 list \<Rightarrow> bool" where
  "nondecreasing [] = True"
| "nondecreasing [w] = True"
| "nondecreasing (v # w # ws) = (v \<le> w \<and> nondecreasing (w # ws))"

text \<open>The percentage \<open>writeh_progress\<close> computes for \<open>wrote\<close>: its \<open>pwrite\<close>, as a number.\<close>

definition percentage :: "u32 \<Rightarrow> u32 \<Rightarrow> int" where
  "percentage fpsz wrote = uint ((wrote * 100) div fpsz)"

text \<open>The first \<open>k\<close> thresholds: 10, 20, ..., \<open>10 * k\<close>.\<close>

definition thresholds :: "nat \<Rightarrow> int list" where
  "thresholds k = map (\<lambda>i. 10 * int i) [1 ..< Suc k]"

text \<open>A sequence of percentages that never goes down and in which no step, starting from
  \<open>prev\<close>, passes more than one multiple of 10.\<close>

fun one_boundary_steps :: "int \<Rightarrow> int list \<Rightarrow> bool" where
  "one_boundary_steps prev [] = True"
| "one_boundary_steps prev (q # qs) =
     (prev \<le> q \<and> q div 10 \<le> prev div 10 + 1 \<and> one_boundary_steps q qs)"

subsection \<open>The programming loop\<close>

text \<open>
  Modelled from the spec: \<open>stm32_write_flash\<close> is defined in stm32ld.c, which is not among
  the sources. The specification (4.5) gives its algorithm: keep \<open>currentAddress\<close>, starting
  at the flash base address; call the data source for up to a fixed maximum chunk size; if
  zero bytes are returned the transfer is complete; otherwise issue a write-memory command
  with the current address and the chunk, require ACK, advance the address and
  \<open>bytesWritten\<close> by the chunk length, and invoke the progress callback with
  \<open>bytesWritten\<close>. The data source is \<open>writeh_read_data\<close> and the progress callback is
  \<open>writeh_progress\<close>, as \<open>main\<close> passes them; \<open>acks k\<close> says whether the device
  acknowledges the k-th write-memory command, \<open>base\<close> is the flash base address and
  \<open>maxlen\<close> the maximum chunk size.
\<close>

function write_flash_loop ::
  "(nat \<Rightarrow> bool) \<Rightarrow> u32 \<Rightarrow> u32 \<Rightarrow> file_state \<Rightarrow> int \<Rightarrow> u32 \<Rightarrow> u32 \<Rightarrow> nat \<Rightarrow> wf_result" where
  "write_flash_loop acks maxlen fpsz f expected_next address wrote k =
     (case writeh_read_data f maxlen of
        ((chunk, datalen), f') \<Rightarrow>
          if datalen = 0 then ([], Inr True)
          else if \<not> acks k then ([WriteMemory address chunk False], Inr False)
          else
            (case writeh_progress fpsz (wrote + datalen) expected_next of
               Inl flt \<Rightarrow>
                 ([WriteMemory address chunk True, Progress (wrote + datalen) None], Inl flt)
             | Inr (printed, expected_next') \<Rightarrow>
                 (case write_flash_loop acks maxlen fpsz f' expected_next'
                         (address + datalen) (wrote + datalen) (k + 1) of
                    (evs, r) \<Rightarrow>
                      (WriteMemory address chunk True # Progress (wrote + datalen) printed # evs,
                       r))))"
  by pat_completeness auto

termination
proof (relation "measure (\<lambda>(acks, maxlen, fpsz, f, en, address, wrote, k).
                   length (contents f) - pos f)", goal_cases)
  case 1
  show ?case by simp
next
  case (2 acks maxlen fpsz f expected_next address wrote k x f' chunk datalen b printed en')
  then have rd: "writeh_read_data f maxlen = ((chunk, datalen), f')" by simp
  with \<open>datalen \<noteq> 0\<close> have ne: "\<not> eof f"
    by (auto simp: writeh_read_data_def split: if_splits)
  with rd have c: "chunk = take (unat maxlen) (drop (pos f) (contents f))"
    and f': "f' = f\<lparr>pos := pos f + length chunk, eof := eof f \<or> length chunk < unat maxlen\<rparr>"
    and dl: "datalen = word_of_nat (length chunk)"
    by (auto simp: writeh_read_data_def fread_def Let_def)
  from dl \<open>datalen \<noteq> 0\<close> have "0 < length chunk" by auto
  moreover have "length chunk \<le> length (contents f) - pos f" by (simp add: c)
  moreover have "pos f' = pos f + length chunk" "length (contents f') = length (contents f)"
    by (simp_all add: f')
  ultimately have "length (contents f') - pos f' < length (contents f) - pos f" by arith
  then show ?case by simp
qed

text \<open>Modelled from the spec: the call \<open>stm32_write_flash(writeh_read_data, writeh_progress)\<close>
  of a fresh process: nothing written yet, \<open>expected_next\<close> at its initial 10, the address
  at the flash base.\<close>

definition stm32_write_flash_spec ::
  "(nat \<Rightarrow> bool) \<Rightarrow> u32 \<Rightarrow> u32 \<Rightarrow> u32 \<Rightarrow> file_state \<Rightarrow> wf_result" where
  "stm32_write_flash_spec acks base maxlen fpsz f =
     write_flash_loop acks maxlen fpsz f 10 base 0 0"

subsection \<open>Notions used by the properties\<close>

text \<open>The supported chip IDs: the entries of the table before the 0 that ends it.\<close>

definition SupportedChipIds :: "u16 set" where
  "SupportedChipIds = set (takeWhile (\<lambda>x. x \<noteq> 0) SUPPORTED_CHIP_IDS)"

text \<open>A transport on which the first \<open>N\<close> connect attempts fail and all later ones succeed.\<close>

definition nack_then_ack :: "nat \<Rightarrow> nat \<Rightarrow> bool" where
  "nack_then_ack N k = (N \<le> k)"

text \<open>\<open>N\<close> failed attempts, each followed by its one-second sleep.\<close>

definition failed_attempts :: "nat \<Rightarrow> event list" where
  "failed_attempts N = concat (replicate N [EvInit False, EvSleep 1])"

fun is_erase :: "event \<Rightarrow> bool" where
  "is_erase (EvExtendedErase _) = True"
| "is_erase (EvErase _) = True"
| "is_erase _ = False"

fun is_write_flash :: "event \<Rightarrow> bool" where
  "is_write_flash (EvWriteFlash _ _) = True"
| "is_write_flash _ = False"

fun is_go :: "event \<Rightarrow> bool" where
  "is_go (EvGo _) = True"
| "is_go _ = False"

fun is_fopen :: "event \<Rightarrow> bool" where
  "is_fopen (EvFopen _ _) = True"
| "is_fopen _ = False"

fun is_write_unprotect :: "event \<Rightarrow> bool" where
  "is_write_unprotect (EvWriteUnprotect _) = True"
| "is_write_unprotect _ = False"

text \<open>What must have happened, in the calls \<open>pre\<close> made so far, before the call \<open>e\<close> may
  be made: erase, program and go need the handshake completed, the version and the chip ID
  obtained and the chip ID supported; program needs a successful erase as well.\<close>

fun version_obtained :: "event \<Rightarrow> bool" where
  "version_obtained (EvGetVersion (Some _)) = True"
| "version_obtained _ = False"

fun chip_supported :: "event \<Rightarrow> bool" where
  "chip_supported (EvGetChipId (Some v)) = (v \<in> SupportedChipIds)"
| "chip_supported _ = False"

definition identified :: "event list \<Rightarrow> bool" where
  "identified pre =
     (EvInit True \<in> set pre \<and> (\<exists>e \<in> set pre. version_obtained e) \<and>
      (\<exists>e \<in> set pre. chip_supported e))"

definition erased :: "event list \<Rightarrow> bool" where
  "erased pre = (EvErase True \<in> set pre \<or> EvExtendedErase True \<in> set pre)"

definition may_issue :: "event list \<Rightarrow> event \<Rightarrow> bool" where
  "may_issue pre e =
     ((is_erase e \<or> is_write_flash e \<or> is_go e \<longrightarrow> identified pre) \<and>
      (is_write_flash e \<longrightarrow> erased pre))"

text \<open>Every call of a trace may be issued after the calls before it.\<close>

fun in_order :: "event list \<Rightarrow> event list \<Rightarrow> bool" where
  "in_order pre [] = True"
| "in_order pre (e # es) = (may_issue pre e \<and> in_order (pre @ [e]) es)"

subsection \<open>Sample inputs\<close>

text \<open>A run in which everything succeeds: the bootloader answers the third sync byte, reports
  version 2.2 and chip ID 0x0410, and acknowledges every command.\<close>

definition sample_params :: params where
  "sample_params =
     \<lparr>port = ''/dev/ttyUSB0'', bin_file = ''flash.bin'', baudrate = 9600,
      skip_flash = 0, send_go = 1\<rparr>"

definition sample_device :: device where
  "sample_device =
     \<lparr>stm32_init = (\<lambda>port' baud. nack_then_ack 2),
      stm32_get_version = Some (2, 2),
      stm32_get_chip_id = Some 0x0410,
      stm32_write_unprotect = True,
      stm32_extended_erase_flash = True,
      stm32_erase_flash = True,
      stm32_write_flash = (\<lambda>fpsz f. ([WriteMemory 0x08000000 (contents f) True], Inr True)),
      stm32_go_command = True,
      fopen = (\<lambda>name. Some [1, 2, 3])\<rparr>"

definition zero_file_params :: params where
  "zero_file_params = sample_params\<lparr>bin_file := ''0''\<rparr>"


definition sample_trace :: "event list" where
  "sample_trace =
     [EvFopen ''flash.bin'' True, EvInit False, EvSleep 1, EvInit False, EvSleep 1, EvInit True,
      EvGetVersion (Some (2, 2)), EvGetChipId (Some 0x0410), EvWriteUnprotect True,
      EvErase True, EvWriteFlash [WriteMemory 0x08000000 [1, 2, 3] True] (Some True),
      EvFclose, EvGo True]"

section \<open>Properties\<close>

declare connect.simps [simp del]
declare chip_scan.simps [simp del]
declare write_flash_loop.simps [simp del]

subsection \<open>Sequencing\<close>

lemma bind_step_Inl [simp]: "bind_step (tr, Inl out) f = (tr, Inl out)"
  by (simp add: bind_step_def)

lemma bind_step_Inr [simp]: "bind_step (tr, Inr x) f = (tr @ fst (f x), snd (f x))"
  by (simp add: bind_step_def split: prod.splits)

lemma finish_simps [simp]:
  "finish (tr, Inl out) = (tr, out)"
  "finish (tr, Inr u) = (tr, Return0)"
  by (simp_all add: finish_def)

subsection \<open>What each step calls and how it can end\<close>

lemma check_params_trace: "\<forall>e \<in> set (fst (check_params p d)). is_fopen e"
  by (simp add: check_params_def split: option.splits)

lemma check_params_Inl:
  "check_params p d = (tr, Inl out) \<Longrightarrow> out = Exit1 NoPort \<or> out = Exit1 FileOpenFailed"
  by (auto simp: check_params_def split: option.splits if_splits)

lemma connect_trace:
  "set (fst (connect init t)) \<subseteq> {EvInit True, EvInit False, EvSleep 1}"
proof (induction init t rule: connect.induct)
  case (1 init timeout)
  show ?case
  proof (cases "init (nat timeout)")
    case True
    then show ?thesis by (subst connect.simps) simp
  next
    case nack: False
    show ?thesis
    proof (cases "timeout + 1 > 60")
      case True
      with nack show ?thesis by (subst connect.simps) simp
    next
      case False
      with nack 1 show ?thesis
        by (subst connect.simps) (cases "connect init (timeout + 1)", auto)
    qed
  qed
qed

lemma connect_Inl: "connect init t = (tr, Inl out) \<Longrightarrow> out = Exit1 ConnectTimeout"
proof (induction init t arbitrary: tr rule: connect.induct)
  case (1 init timeout)
  from "1.prems" show ?case
    by (subst (asm) connect.simps)
       (cases "connect init (timeout + 1)", auto simp: Let_def split: if_splits dest: "1.IH")
qed

lemma connect_Inr: "connect init t = (tr, Inr u) \<Longrightarrow> EvInit True \<in> set tr"
proof (induction init t arbitrary: tr rule: connect.induct)
  case (1 init timeout)
  from "1.prems" show ?case
    by (subst (asm) connect.simps)
       (cases "connect init (timeout + 1)", auto simp: Let_def split: if_splits dest: "1.IH")
qed

lemma version_step_trace: "fst (version_step d) = [EvGetVersion (stm32_get_version d)]"
  by (simp add: version_step_def split: option.splits prod.splits)

lemma version_step_Inl:
  "version_step d = (tr, Inl out) \<Longrightarrow>
     out = Exit1 GetVersionFailed \<and> stm32_get_version d = None \<or>
     out = Exit1 VersionUnsupported \<and>
       (\<exists>major minor. stm32_get_version d = Some (major, minor) \<and>
          BL_MKVER (uint major) (uint minor) < BL_MINVERSION)"
  by (auto simp: version_step_def split: option.splits prod.splits if_splits)

lemma version_step_Inr:
  "version_step d = (tr, Inr (major, minor)) \<Longrightarrow>
     stm32_get_version d = Some (major, minor) \<and>
     \<not> BL_MKVER (uint major) (uint minor) < BL_MINVERSION"
  by (auto simp: version_step_def split: option.splits prod.splits if_splits)

lemma chip_scan_supported:
  "chip_scan SUPPORTED_CHIP_IDS 0 v =
     Inr (if v = 0x0410 then 0 else if v = 0x0414 then 1 else if v = 0x0413 then 2
          else if v = 0x0440 then 3 else 4)"
  by (simp add: SUPPORTED_CHIP_IDS_def chip_scan.simps)

lemma SupportedChipIds_eq: "SupportedChipIds = {0x0410, 0x0414, 0x0413, 0x0440}"
  by (auto simp: SupportedChipIds_def SUPPORTED_CHIP_IDS_def)

lemma chip_id_step_Some:
  "stm32_get_chip_id d = Some v \<Longrightarrow>
     chip_id_step d =
       ([EvGetChipId (Some v)],
        if v \<in> SupportedChipIds then Inr () else Inl (Exit1 ChipUnsupported))"
  unfolding chip_id_step_def chip_scan_supported
  by (simp add: SupportedChipIds_eq SUPPORTED_CHIP_IDS_def)

lemma chip_id_step_None:
  "stm32_get_chip_id d = None \<Longrightarrow>
     chip_id_step d = ([EvGetChipId None], Inl (Exit1 GetChipIdFailed))"
  by (simp add: chip_id_step_def)

lemma chip_id_step_trace: "fst (chip_id_step d) = [EvGetChipId (stm32_get_chip_id d)]"
  by (cases "stm32_get_chip_id d") (simp_all add: chip_id_step_Some chip_id_step_None)

lemma chip_id_step_Inl:
  "chip_id_step d = (tr, Inl out) \<Longrightarrow>
     out = Exit1 GetChipIdFailed \<and> stm32_get_chip_id d = None \<or>
     out = Exit1 ChipUnsupported \<and>
       (\<exists>v. stm32_get_chip_id d = Some v \<and> v \<notin> SupportedChipIds)"
  by (cases "stm32_get_chip_id d") (auto simp: chip_id_step_Some chip_id_step_None split: if_splits)

lemma chip_id_step_Inr:
  "chip_id_step d = (tr, Inr u) \<Longrightarrow>
     \<exists>v. stm32_get_chip_id d = Some v \<and> v \<in> SupportedChipIds"
  by (cases "stm32_get_chip_id d") (auto simp: chip_id_step_Some chip_id_step_None split: if_splits)

lemma program_step_cases:
  "program_step d g = (tr, r) \<Longrightarrow>
     tr = [] \<and> r = Inl (Crash NullFile) \<or>
     (\<exists>evs flt. tr = [EvWriteFlash evs None] \<and> r = Inl (Crash flt)) \<or>
     (\<exists>evs. tr = [EvWriteFlash evs (Some False)] \<and> r = Inl (Exit1 ProgramFailed)) \<or>
     (\<exists>evs. tr = [EvWriteFlash evs (Some True), EvFclose] \<and> r = Inr ())"
  by (auto simp: program_step_def split: option.splits prod.splits sum.splits if_splits)

lemma flash_step_cases:
  "flash_step d major g = (tr, r) \<Longrightarrow>
     tr = [EvWriteUnprotect False] \<and> r = Inl (Exit1 WriteUnprotectFailed) \<or>
     tr = [EvWriteUnprotect True, EvExtendedErase False] \<and> major = 3 \<and>
       \<not> stm32_extended_erase_flash d \<and> r = Inl (Exit1 ExtendedEraseFailed) \<or>
     tr = [EvWriteUnprotect True, EvErase False] \<and> major \<noteq> 3 \<and>
       \<not> stm32_erase_flash d \<and> r = Inl (Exit1 EraseFailed) \<or>
     (\<exists>tr'. tr = [EvWriteUnprotect True,
                  if major = 3 then EvExtendedErase True else EvErase True] @ tr' \<and>
        (if major = 3 then stm32_extended_erase_flash d else stm32_erase_flash d) \<and>
        program_step d g = (tr', r))"
  by (cases "program_step d g")
     (auto simp: flash_step_def erase_step_def command_def split: if_splits)

lemma go_step_cases:
  "go_step p d = (tr, r) \<Longrightarrow>
     tr = [] \<and> r = Inr () \<or> tr = [EvGo True] \<and> r = Inr () \<or>
     tr = [EvGo False] \<and> r = Inl (Exit1 GoFailed)"
  by (auto simp: go_step_def command_def split: if_splits)

subsection \<open>The runs of main\<close>

lemma main_cases [case_names ParamsFail ConnectFail VersionFail ChipFail FlashFail Finished]:
  assumes "\<And>tr0 out. check_params p d = (tr0, Inl out) \<Longrightarrow> main p d = (tr0, out) \<Longrightarrow> P"
    and "\<And>tr0 skip g tr1 out.
          check_params p d = (tr0, Inr (skip, g)) \<Longrightarrow>
          connect (stm32_init d (port p) (baudrate p)) 0 = (tr1, Inl out) \<Longrightarrow>
          main p d = (tr0 @ tr1, out) \<Longrightarrow> P"
    and "\<And>tr0 skip g tr1 tr2 out.
          check_params p d = (tr0, Inr (skip, g)) \<Longrightarrow>
          connect (stm32_init d (port p) (baudrate p)) 0 = (tr1, Inr ()) \<Longrightarrow>
          version_step d = (tr2, Inl out) \<Longrightarrow>
          main p d = (tr0 @ tr1 @ tr2, out) \<Longrightarrow> P"
    and "\<And>tr0 skip g tr1 tr2 major minor tr3 out.
          check_params p d = (tr0, Inr (skip, g)) \<Longrightarrow>
          connect (stm32_init d (port p) (baudrate p)) 0 = (tr1, Inr ()) \<Longrightarrow>
          version_step d = (tr2, Inr (major, minor)) \<Longrightarrow>
          chip_id_step d = (tr3, Inl out) \<Longrightarrow>
          main p d = (tr0 @ tr1 @ tr2 @ tr3, out) \<Longrightarrow> P"
    and "\<And>tr0 skip g tr1 tr2 major minor tr3 tr4 out.
          check_params p d = (tr0, Inr (skip, g)) \<Longrightarrow>
          connect (stm32_init d (port p) (baudrate p)) 0 = (tr1, Inr ()) \<Longrightarrow>
          version_step d = (tr2, Inr (major, minor)) \<Longrightarrow>
          chip_id_step d = (tr3, Inr ()) \<Longrightarrow>
          skip = 0 \<Longrightarrow>
          flash_step d major g = (tr4, Inl out) \<Longrightarrow>
          main p d = (tr0 @ tr1 @ tr2 @ tr3 @ tr4, out) \<Longrightarrow> P"
    and "\<And>tr0 skip g tr1 tr2 major minor tr3 tr4 tr5 r.
          check_params p d = (tr0, Inr (skip, g)) \<Longrightarrow>
          connect (stm32_init d (port p) (baudrate p)) 0 = (tr1, Inr ()) \<Longrightarrow>
          version_step d = (tr2, Inr (major, minor)) \<Longrightarrow>
          chip_id_step d = (tr3, Inr ()) \<Longrightarrow>
          (if skip = 0 then flash_step d major g else ([], Inr ())) = (tr4, Inr ()) \<Longrightarrow>
          go_step p d = (tr5, r) \<Longrightarrow>
          main p d = (tr0 @ tr1 @ tr2 @ tr3 @ tr4 @ tr5, (case r of Inl out \<Rightarrow> out | Inr _ \<Rightarrow> Return0)) \<Longrightarrow> P"
  shows P
proof (cases "check_params p d")
  case cp: (Pair tr0 r0)
  show P
  proof (cases r0)
    case (Inl out)
    with cp show P by (intro assms(1)[of tr0 out]) (simp_all add: main_def)
  next
    case (Inr sg)
    obtain skip g where sg: "sg = (skip, g)" by (cases sg)
    note cp' = cp[unfolded Inr sg]
    show P
    proof (cases "connect (stm32_init d (port p) (baudrate p)) 0")
      case cn: (Pair tr1 r1)
      show P
      proof (cases r1)
        case (Inl out)
        with cp' cn show P by (intro assms(2)[of tr0 skip g tr1 out]) (simp_all add: main_def)
      next
        case (Inr u)
        note cn' = cn[unfolded Inr]
        show P
        proof (cases "version_step d")
          case vs: (Pair tr2 r2)
          show P
          proof (cases r2)
            case (Inl out)
            with cp' cn' vs show P
              by (intro assms(3)[of tr0 skip g tr1 tr2 out]) (simp_all add: main_def)
          next
            case (Inr mm)
            obtain major minor where mm: "mm = (major, minor)" by (cases mm)
            note vs' = vs[unfolded Inr mm]
            show P
            proof (cases "chip_id_step d")
              case cs: (Pair tr3 r3)
              show P
              proof (cases r3)
                case (Inl out)
                with cp' cn' vs' cs show P
                  by (intro assms(4)[of tr0 skip g tr1 tr2 major minor tr3 out]) (simp_all add: main_def)
              next
                case (Inr u3)
                note cs' = cs[unfolded Inr]
                show P
                proof (cases "if skip = 0 then flash_step d major g else ([], Inr ())")
                  case fl: (Pair tr4 r4)
                  show P
                  proof (cases r4)
                    case (Inl out)
                    with fl have sk: "skip = 0" by (auto split: if_splits)
                    with fl Inl have fl': "flash_step d major g = (tr4, Inl out)" by simp
                    from cp' cn' vs' cs' sk fl' show P
                      by (intro assms(5)[of tr0 skip g tr1 tr2 major minor tr3 tr4 out]) (simp_all add: main_def)
                  next
                    case (Inr u4)
                    note fl' = fl[unfolded Inr]
                    obtain tr5 r where go: "go_step p d = (tr5, r)" by (cases "go_step p d")
                    from cp' cn' vs' cs' fl' go show P
                      by (intro assms(6)[of tr0 skip g tr1 tr2 major minor tr3 tr4 tr5 r])
                         (simp_all add: main_def finish_def split: sum.splits)
                  qed
                qed
              qed
            qed
          qed
        qed
      qed
    qed
  qed
qed

lemma event_kinds:
  "is_fopen e \<Longrightarrow> \<not> is_erase e \<and> \<not> is_write_flash e \<and> \<not> is_go e \<and> \<not> is_write_unprotect e"
  "is_go e \<Longrightarrow> \<not> is_erase e \<and> \<not> is_write_flash e \<and> \<not> is_fopen e \<and> \<not> is_write_unprotect e"
  "is_erase e \<Longrightarrow> \<not> is_write_flash e \<and> \<not> is_write_unprotect e"
  "is_write_flash e \<Longrightarrow> \<not> is_write_unprotect e"
  by (cases e; simp)+

lemma check_params_events: "check_params p d = (tr, r) \<Longrightarrow> e \<in> set tr \<Longrightarrow> is_fopen e"
  using check_params_trace[of p d] by auto

lemma connect_events:
  "connect init t = (tr, r) \<Longrightarrow> e \<in> set tr \<Longrightarrow> e = EvInit True \<or> e = EvInit False \<or> e = EvSleep 1"
  using connect_trace[of init t] by auto

lemma version_step_events: "version_step d = (tr, r) \<Longrightarrow> tr = [EvGetVersion (stm32_get_version d)]"
  using version_step_trace[of d] by simp

lemma chip_id_step_events: "chip_id_step d = (tr, r) \<Longrightarrow> tr = [EvGetChipId (stm32_get_chip_id d)]"
  using chip_id_step_trace[of d] by simp

lemma flash_step_events:
  "flash_step d major g = (tr, r) \<Longrightarrow> e \<in> set tr \<Longrightarrow>
     is_write_unprotect e \<or> is_erase e \<or> is_write_flash e \<or> e = EvFclose"
  by (auto dest!: flash_step_cases program_step_cases split: if_splits)

lemma flash_part_events:
  "(if skip = 0 then flash_step d major g else ([], Inr ())) = (tr, r) \<Longrightarrow> e \<in> set tr \<Longrightarrow>
     is_write_unprotect e \<or> is_erase e \<or> is_write_flash e \<or> e = EvFclose"
  by (cases "skip = 0") (auto dest: flash_step_events)

lemma go_step_events: "go_step p d = (tr, r) \<Longrightarrow> e \<in> set tr \<Longrightarrow> is_go e"
  by (auto dest!: go_step_cases)

lemmas step_events =
  check_params_events connect_events version_step_events chip_id_step_events
  flash_step_events flash_part_events go_step_events

lemma main_trace_GetVersion:
  "EvGetVersion x \<in> set (fst (main p d)) \<Longrightarrow> x = stm32_get_version d"
  by (cases p d rule: main_cases) (auto dest: step_events)

lemma main_trace_GetChipId:
  "EvGetChipId x \<in> set (fst (main p d)) \<Longrightarrow> x = stm32_get_chip_id d"
  by (cases p d rule: main_cases) (auto dest: step_events)

lemma sample_run: "main sample_params sample_device = (sample_trace, Return0)"
  by (simp add: main_def sample_params_def sample_device_def sample_trace_def check_params_def
      strlen_def strncmp_equal_def connect.simps nack_then_ack_def version_step_def
      BL_MKVER_def BL_MINVERSION_def BL_VERSION_MAJOR_def BL_VERSION_MINOR_def
      chip_id_step_Some SupportedChipIds_eq flash_step_def erase_step_def program_step_def
      command_def go_step_def rewound_def ftell_end_def)

subsection \<open>The handshake retry loop\<close>

lemma failed_attempts_Suc:
  "failed_attempts (Suc n) = EvInit False # EvSleep 1 # failed_attempts n"
  by (simp add: failed_attempts_def)

lemma connect_succeeds:
  "\<forall>k<m. \<not> init (t + k) \<Longrightarrow> init (t + m) \<Longrightarrow> t + m \<le> 60 \<Longrightarrow>
     connect init (int t) = (failed_attempts m @ [EvInit True], Inr ())"
proof (induction m arbitrary: t)
  case 0
  then show ?case by (subst connect.simps) (simp add: failed_attempts_def)
next
  case (Suc m)
  from Suc.prems(1) have nack: "\<not> init t" by (metis add.right_neutral zero_less_Suc)
  from Suc.prems(1) have "\<forall>k<m. \<not> init (Suc t + k)" by auto
  moreover from Suc.prems have "init (Suc t + m)" "Suc t + m \<le> 60" by simp_all
  ultimately have "connect init (int (Suc t)) = (failed_attempts m @ [EvInit True], Inr ())"
    by (rule Suc.IH)
  then have rec: "connect init (int t + 1) = (failed_attempts m @ [EvInit True], Inr ())"
    by (simp add: add.commute)
  from Suc.prems(3) have "\<not> int t + 1 > 60" by simp
  with nack rec show ?case
    by (subst connect.simps) (simp add: failed_attempts_Suc)
qed

lemma connect_gives_up:
  "\<forall>k. t \<le> k \<and> k \<le> 60 \<longrightarrow> \<not> init k \<Longrightarrow> t \<le> 60 \<Longrightarrow>
     connect init (int t) = (failed_attempts (61 - t), Inl (Exit1 ConnectTimeout))"
proof (induction "60 - t" arbitrary: t)
  case 0
  then have t: "t = 60" by simp
  with "0.prems" have "\<not> init 60" by simp
  with t show ?case by (subst connect.simps) (simp add: failed_attempts_def)
next
  case (Suc n)
  then have lt: "t < 60" by simp
  from Suc.prems have nack: "\<not> init t" by simp
  from Suc.hyps(2) have "n = 60 - Suc t" by simp
  moreover from Suc.prems(1) have "\<forall>k. Suc t \<le> k \<and> k \<le> 60 \<longrightarrow> \<not> init k" by simp
  moreover from lt have "Suc t \<le> 60" by simp
  ultimately have "connect init (int (Suc t)) =
      (failed_attempts (61 - Suc t), Inl (Exit1 ConnectTimeout))"
    by (rule Suc.hyps(1))
  then have rec: "connect init (int t + 1) =
      (failed_attempts (61 - Suc t), Inl (Exit1 ConnectTimeout))"
    by (simp add: add.commute)
  from lt have "\<not> int t + 1 > 60" by simp
  moreover from lt have "61 - t = Suc (61 - Suc t)" by simp
  ultimately show ?case using nack rec
    by (subst connect.simps) (simp add: failed_attempts_Suc)
qed

lemma connect_after_failures:
  assumes "\<forall>k<N. \<not> init k" and "init N"
  shows "connect init 0 =
     (if N \<le> 60 then (failed_attempts N @ [EvInit True], Inr ())
      else (failed_attempts 61, Inl (Exit1 ConnectTimeout)))"
proof (cases "N \<le> 60")
  case True
  with assms connect_succeeds[of N init 0] show ?thesis by simp
next
  case False
  with assms connect_gives_up[of 0 init] show ?thesis by simp
qed

text \<open>
  C2, as stated: the session connects iff \<open>N < 60\<close>. It fails at \<open>N = 60\<close>: the loop gives
  up when the counter of failed attempts exceeds 60, so after 60 failures the 61st attempt
  is still made, and it connects.
\<close>

theorem handshake_counterexample:
  "snd (connect (nack_then_ack 60) 0) = Inr () \<and> \<not> (60::nat) < 60"
  using connect_after_failures[of 60 "nack_then_ack 60"] by (simp add: nack_then_ack_def)

text \<open>
  C2, amended: if the connect attempt fails \<open>N\<close> times and then succeeds, the session
  connects iff \<open>N \<le> 60\<close>, after \<open>N\<close> failed attempts each followed by a sleep of 1 second;
  for \<open>N > 60\<close> it makes 61 attempts, sleeps 1 second after each, and aborts with the
  handshake timeout. In a run of \<open>main\<close> that gets past the parameter checks, the handshake
  completes iff \<open>N \<le> 60\<close> and the run ends with the timeout iff \<open>N > 60\<close>.
\<close>

theorem handshake_retry_bound:
  assumes "\<forall>k<N. \<not> stm32_init d (port p) (baudrate p) k"
    and "stm32_init d (port p) (baudrate p) N"
  shows "connect (stm32_init d (port p) (baudrate p)) 0 =
           (if N \<le> 60 then (failed_attempts N @ [EvInit True], Inr ())
            else (failed_attempts 61, Inl (Exit1 ConnectTimeout))) \<and>
         (\<forall>x. snd (check_params p d) = Inr x \<longrightarrow>
            (EvInit True \<in> set (fst (main p d))) = (N \<le> 60) \<and>
            (snd (main p d) = Exit1 ConnectTimeout) = (60 < N))"
proof -
  let ?init = "stm32_init d (port p) (baudrate p)"
  have cn: "connect ?init 0 =
           (if N \<le> 60 then (failed_attempts N @ [EvInit True], Inr ())
            else (failed_attempts 61, Inl (Exit1 ConnectTimeout)))"
    using assms by (rule connect_after_failures)
  have noinit: "EvInit True \<notin> set (failed_attempts n)" for n
    by (induction n) (simp_all add: failed_attempts_def)
  have "(EvInit True \<in> set (fst (main p d))) = (N \<le> 60) \<and>
        (snd (main p d) = Exit1 ConnectTimeout) = (60 < N)"
    if cp: "snd (check_params p d) = Inr x" for x
  proof (cases p d rule: main_cases)
    case (ParamsFail tr0 out)
    with cp show ?thesis by simp
  next
    case (ConnectFail tr0 skip g tr1 out)
    with cn show ?thesis
      by (auto simp: noinit split: if_splits dest: step_events)
  next
    case (VersionFail tr0 skip g tr1 tr2 out)
    with cn show ?thesis
      by (auto split: if_splits dest: version_step_Inl)
  next
    case (ChipFail tr0 skip g tr1 tr2 major minor tr3 out)
    with cn show ?thesis
      by (auto split: if_splits dest: chip_id_step_Inl)
  next
    case (FlashFail tr0 skip g tr1 tr2 major minor tr3 tr4 out)
    with cn show ?thesis
      by (auto split: if_splits dest!: flash_step_cases program_step_cases)
  next
    case (Finished tr0 skip g tr1 tr2 major minor tr3 tr4 tr5 r)
    with cn show ?thesis
      by (auto split: if_splits dest!: go_step_cases)
  qed
  with cn show ?thesis by blast
qed

theorem handshake_retry_bound_witness:
  "\<not> stm32_init sample_device (port sample_params) (baudrate sample_params) 0 \<and>
   \<not> stm32_init sample_device (port sample_params) (baudrate sample_params) 1 \<and>
   stm32_init sample_device (port sample_params) (baudrate sample_params) 2 \<and>
   connect (stm32_init sample_device (port sample_params) (baudrate sample_params)) 0 =
     (failed_attempts 2 @ [EvInit True], Inr ()) \<and>
   snd (check_params sample_params sample_device) =
     Inr (0, \<lparr>fp = Some (rewound [1, 2, 3]), fpsize = ftell_end [1, 2, 3]\<rparr>) \<and>
   EvInit True \<in> set (fst (main sample_params sample_device)) \<and>
   snd (main sample_params sample_device) \<noteq> Exit1 ConnectTimeout"
proof -
  have h1: "\<forall>k<2. \<not> stm32_init sample_device (port sample_params) (baudrate sample_params) k"
    by (simp add: sample_device_def nack_then_ack_def)
  have h2: "stm32_init sample_device (port sample_params) (baudrate sample_params) 2"
    by (simp add: sample_device_def nack_then_ack_def)
  have h3: "snd (check_params sample_params sample_device) =
     Inr (0, \<lparr>fp = Some (rewound [1, 2, 3]), fpsize = ftell_end [1, 2, 3]\<rparr>)"
    by (simp add: check_params_def sample_params_def sample_device_def strlen_def
        strncmp_equal_def)
  from handshake_retry_bound[OF h1 h2] h1 h2 h3 show ?thesis
    by (simp add: sample_device_def nack_then_ack_def)
qed

subsection \<open>The version check\<close>

text \<open>
  C5: for every version pair \<open>(major, minor)\<close> the bootloader reports, the version check
  accepts iff \<open>major * 256 + minor \<ge> BL_MINVERSION\<close>, the session ends with the
  unsupported-version error iff the value is below it, and it goes on to the chip ID request
  iff the check accepts. \<open>BL_MINVERSION\<close> is fixed: version 2.1.
\<close>

theorem version_check_accepts_iff:
  assumes "EvGetVersion (Some (major, minor)) \<in> set (fst (main p d))"
  shows "(snd (version_step d) = Inr (major, minor)) =
           (BL_MINVERSION \<le> uint major * 256 + uint minor) \<and>
         (snd (main p d) = Exit1 VersionUnsupported) =
           (uint major * 256 + uint minor < BL_MINVERSION) \<and>
         (EvGetChipId (stm32_get_chip_id d) \<in> set (fst (main p d))) =
           (BL_MINVERSION \<le> uint major * 256 + uint minor) \<and>
         BL_MINVERSION = 2 * 256 + 1"
proof -
  from assms have gv: "stm32_get_version d = Some (major, minor)"
    by (auto dest: main_trace_GetVersion)
  have a: "(snd (version_step d) = Inr (major, minor)) =
             (BL_MINVERSION \<le> uint major * 256 + uint minor)"
    using gv by (auto simp: version_step_def BL_MKVER_def)
  have m: "BL_MINVERSION = 2 * 256 + 1"
    by (simp add: BL_MINVERSION_def BL_MKVER_def BL_VERSION_MAJOR_def BL_VERSION_MINOR_def)
  have b: "(snd (main p d) = Exit1 VersionUnsupported) =
             (uint major * 256 + uint minor < BL_MINVERSION)"
  proof (cases p d rule: main_cases)
    case (ParamsFail tr0 out)
    with assms show ?thesis by (auto dest: step_events)
  next
    case (ConnectFail tr0 skip g tr1 out)
    with assms show ?thesis by (auto dest: step_events)
  next
    case (VersionFail tr0 skip g tr1 tr2 out)
    with gv show ?thesis by (auto dest: version_step_Inl simp: BL_MKVER_def)
  next
    case (ChipFail tr0 skip g tr1 tr2 major' minor' tr3 out)
    with gv show ?thesis by (auto dest!: version_step_Inr chip_id_step_Inl simp: BL_MKVER_def)
  next
    case (FlashFail tr0 skip g tr1 tr2 major' minor' tr3 tr4 out)
    with gv show ?thesis
      by (auto dest!: version_step_Inr flash_step_cases program_step_cases simp: BL_MKVER_def)
  next
    case (Finished tr0 skip g tr1 tr2 major' minor' tr3 tr4 tr5 r)
    with gv show ?thesis
      by (auto dest!: version_step_Inr go_step_cases simp: BL_MKVER_def)
  qed
  have c: "(EvGetChipId (stm32_get_chip_id d) \<in> set (fst (main p d))) =
             (BL_MINVERSION \<le> uint major * 256 + uint minor)"
  proof (cases p d rule: main_cases)
    case (ParamsFail tr0 out)
    with assms show ?thesis by (auto dest: step_events)
  next
    case (ConnectFail tr0 skip g tr1 out)
    with assms show ?thesis by (auto dest: step_events)
  next
    case (VersionFail tr0 skip g tr1 tr2 out)
    with gv show ?thesis
      by (auto dest: version_step_Inl step_events simp: BL_MKVER_def)
  next
    case (ChipFail tr0 skip g tr1 tr2 major' minor' tr3 out)
    with gv show ?thesis
      by (auto dest!: version_step_Inr dest: chip_id_step_events simp: BL_MKVER_def)
  next
    case (FlashFail tr0 skip g tr1 tr2 major' minor' tr3 tr4 out)
    with gv show ?thesis
      by (auto dest!: version_step_Inr dest: chip_id_step_events simp: BL_MKVER_def)
  next
    case (Finished tr0 skip g tr1 tr2 major' minor' tr3 tr4 tr5 r)
    with gv show ?thesis
      by (auto dest!: version_step_Inr dest: chip_id_step_events simp: BL_MKVER_def)
  qed
  from a b c m show ?thesis by blast
qed

theorem version_check_accepts_iff_witness:
  "EvGetVersion (Some (2, 2)) \<in> set (fst (main sample_params sample_device)) \<and>
   snd (version_step sample_device) = Inr (2, 2) \<and>
   snd (main sample_params sample_device) \<noteq> Exit1 VersionUnsupported \<and>
   EvGetChipId (stm32_get_chip_id sample_device) \<in> set (fst (main sample_params sample_device))"
proof -
  have h: "EvGetVersion (Some (2, 2)) \<in> set (fst (main sample_params sample_device))"
    by (simp add: sample_run sample_trace_def)
  from version_check_accepts_iff[OF h] h show ?thesis by simp
qed

subsection \<open>The chip ID check\<close>

text \<open>
  C4: for every 16-bit chip ID \<open>v\<close> the device reports, the check accepts iff \<open>v\<close> is one of
  the supported chip IDs, and the session ends with the unsupported-chip error iff it is
  not.
\<close>

theorem chip_id_check_accepts_iff:
  assumes "EvGetChipId (Some v) \<in> set (fst (main p d))"
  shows "(snd (chip_id_step d) = Inr ()) = (v \<in> SupportedChipIds) \<and>
         (snd (main p d) = Exit1 ChipUnsupported) = (v \<notin> SupportedChipIds)"
proof -
  from assms have gc: "stm32_get_chip_id d = Some v"
    by (auto dest: main_trace_GetChipId)
  have a: "(snd (chip_id_step d) = Inr ()) = (v \<in> SupportedChipIds)"
    by (simp add: chip_id_step_Some[OF gc])
  have b: "(snd (main p d) = Exit1 ChipUnsupported) = (v \<notin> SupportedChipIds)"
  proof (cases p d rule: main_cases)
    case (ParamsFail tr0 out)
    with assms show ?thesis by (auto dest: step_events)
  next
    case (ConnectFail tr0 skip g tr1 out)
    with assms show ?thesis by (auto dest: step_events)
  next
    case (VersionFail tr0 skip g tr1 tr2 out)
    with assms show ?thesis by (auto dest: step_events)
  next
    case (ChipFail tr0 skip g tr1 tr2 major minor tr3 out)
    with gc show ?thesis by (auto dest!: chip_id_step_Inl)
  next
    case (FlashFail tr0 skip g tr1 tr2 major minor tr3 tr4 out)
    with gc show ?thesis
      by (auto dest!: chip_id_step_Inr flash_step_cases program_step_cases)
  next
    case (Finished tr0 skip g tr1 tr2 major minor tr3 tr4 tr5 r)
    with gc show ?thesis
      by (auto dest!: chip_id_step_Inr go_step_cases)
  qed
  from a b show ?thesis by blast
qed

theorem chip_id_check_accepts_iff_witness:
  "EvGetChipId (Some 0x0410) \<in> set (fst (main sample_params sample_device)) \<and>
   snd (chip_id_step sample_device) = Inr () \<and>
   snd (main sample_params sample_device) \<noteq> Exit1 ChipUnsupported"
proof -
  have h: "EvGetChipId (Some 0x0410) \<in> set (fst (main sample_params sample_device))"
    by (simp add: sample_run sample_trace_def)
  from chip_id_check_accepts_iff[OF h] h show ?thesis by (simp add: SupportedChipIds_eq)
qed

text \<open>
  C9: chip ID 0 is never accepted. The scan for 0 runs to the end of the table and stops at
  the terminating 0, which the check that follows reads as "not found". The chip IDs
  accepted are exactly 0x0410, 0x0414, 0x0413 and 0x0440.
\<close>

theorem chip_id_zero_rejected:
  "chip_scan SUPPORTED_CHIP_IDS 0 0 = Inr 4 \<and> SUPPORTED_CHIP_IDS ! 4 = 0 \<and>
   chip_id_step (d\<lparr>stm32_get_chip_id := Some 0\<rparr>) =
     ([EvGetChipId (Some 0)], Inl (Exit1 ChipUnsupported)) \<and>
   {v. snd (chip_id_step (d\<lparr>stm32_get_chip_id := Some v\<rparr>)) = Inr ()} =
     {0x0410, 0x0414, 0x0413, 0x0440}"
proof -
  have a: "chip_scan SUPPORTED_CHIP_IDS 0 0 = Inr 4" by (simp add: chip_scan_supported)
  have b: "SUPPORTED_CHIP_IDS ! 4 = 0" by (simp add: SUPPORTED_CHIP_IDS_def)
  have c: "chip_id_step (d\<lparr>stm32_get_chip_id := Some 0\<rparr>) =
     ([EvGetChipId (Some 0)], Inl (Exit1 ChipUnsupported))"
    by (simp add: chip_id_step_Some SupportedChipIds_eq)
  have e: "{v. snd (chip_id_step (d\<lparr>stm32_get_chip_id := Some v\<rparr>)) = Inr ()} =
     {0x0410, 0x0414, 0x0413, 0x0440}"
    by (auto simp: chip_id_step_Some SupportedChipIds_eq split: if_splits)
  from a b c e show ?thesis by blast
qed

subsection \<open>The parameter checks\<close>

text \<open>
  C10: no run ends with the error "No bin file selected". Its guard tests \<open>port\<close>, which
  the check before it has already found non-empty.
\<close>

theorem missing_file_error_unreachable: "snd (main p d) \<noteq> Exit1 NoBinFile"
proof (cases p d rule: main_cases)
  case (ParamsFail tr0 out)
  then show ?thesis by (auto dest: check_params_Inl)
next
  case (ConnectFail tr0 skip g tr1 out)
  then show ?thesis by (auto dest: connect_Inl)
next
  case (VersionFail tr0 skip g tr1 tr2 out)
  then show ?thesis by (auto dest: version_step_Inl)
next
  case (ChipFail tr0 skip g tr1 tr2 major minor tr3 out)
  then show ?thesis by (auto dest: chip_id_step_Inl)
next
  case (FlashFail tr0 skip g tr1 tr2 major minor tr3 tr4 out)
  then show ?thesis by (auto dest!: flash_step_cases program_step_cases)
next
  case (Finished tr0 skip g tr1 tr2 major minor tr3 tr4 tr5 r)
  then show ?thesis by (auto dest!: go_step_cases)
qed

subsection \<open>Erase strategy\<close>

lemma check_params_no_erase: "check_params p d = (tr, r) \<Longrightarrow> filter is_erase tr = []"
  by (auto simp: filter_empty_conv dest: step_events event_kinds)

lemma connect_no_erase: "connect init t = (tr, r) \<Longrightarrow> filter is_erase tr = []"
  by (auto simp: filter_empty_conv dest: step_events event_kinds)

lemma go_step_no_erase: "go_step p d = (tr, r) \<Longrightarrow> filter is_erase tr = []"
  by (auto simp: filter_empty_conv dest: step_events event_kinds)

lemma flash_step_erase:
  "flash_step d major g = (tr, r) \<Longrightarrow> EvWriteUnprotect True \<in> set tr \<Longrightarrow>
     filter is_erase tr =
       [if major = 3 then EvExtendedErase (stm32_extended_erase_flash d)
        else EvErase (stm32_erase_flash d)]"
  by (auto dest!: flash_step_cases program_step_cases split: if_splits)

text \<open>
  C6: in every run that reaches the erase step (write unprotect has succeeded), exactly one
  erase command is issued, and which one depends on the bootloader's major version alone:
  extended erase if \<open>major = 3\<close>, standard erase otherwise.
\<close>

theorem erase_strategy_by_major:
  assumes "EvWriteUnprotect True \<in> set (fst (main p d))"
    and "stm32_get_version d = Some (major, minor)"
  shows "filter is_erase (fst (main p d)) =
           [if major = 3 then EvExtendedErase (stm32_extended_erase_flash d)
            else EvErase (stm32_erase_flash d)]"
proof (cases p d rule: main_cases)
  case (ParamsFail tr0 out)
  with assms(1) show ?thesis by (auto dest: step_events)
next
  case (ConnectFail tr0 skip g tr1 out)
  with assms(1) show ?thesis by (auto dest: step_events)
next
  case (VersionFail tr0 skip g tr1 tr2 out)
  with assms(1) show ?thesis by (auto dest: step_events)
next
  case (ChipFail tr0 skip g tr1 tr2 major' minor' tr3 out)
  with assms(1) show ?thesis by (auto dest: step_events)
next
  case (FlashFail tr0 skip g tr1 tr2 major' minor' tr3 tr4 out)
  from FlashFail(3) assms(2) have mj: "major' = major" by (auto dest: version_step_Inr)
  have tr: "fst (main p d) = tr0 @ tr1 @ tr2 @ tr3 @ tr4" by (simp add: FlashFail(7))
  have e0: "filter is_erase tr0 = []" using FlashFail(1) by (rule check_params_no_erase)
  have e1: "filter is_erase tr1 = []" using FlashFail(2) by (rule connect_no_erase)
  have e2: "filter is_erase tr2 = []" by (simp add: version_step_events[OF FlashFail(3)])
  have e3: "filter is_erase tr3 = []" by (simp add: chip_id_step_events[OF FlashFail(4)])
  have "EvWriteUnprotect True \<notin> set tr0" "EvWriteUnprotect True \<notin> set tr1"
       "EvWriteUnprotect True \<notin> set tr2" "EvWriteUnprotect True \<notin> set tr3"
    using FlashFail(1-4) by (auto dest: step_events)
  with assms(1) tr have wu: "EvWriteUnprotect True \<in> set tr4" by simp
  from flash_step_erase[OF FlashFail(6) wu] e0 e1 e2 e3 show ?thesis
    by (simp add: tr mj)
next
  case (Finished tr0 skip g tr1 tr2 major' minor' tr3 tr4 tr5 r)
  from Finished(3) assms(2) have mj: "major' = major" by (auto dest: version_step_Inr)
  have tr: "fst (main p d) = tr0 @ tr1 @ tr2 @ tr3 @ tr4 @ tr5" by (simp add: Finished(7))
  have e0: "filter is_erase tr0 = []" using Finished(1) by (rule check_params_no_erase)
  have e1: "filter is_erase tr1 = []" using Finished(2) by (rule connect_no_erase)
  have e2: "filter is_erase tr2 = []" by (simp add: version_step_events[OF Finished(3)])
  have e3: "filter is_erase tr3 = []" by (simp add: chip_id_step_events[OF Finished(4)])
  have e5: "filter is_erase tr5 = []" using Finished(6) by (rule go_step_no_erase)
  have "EvWriteUnprotect True \<notin> set tr0" "EvWriteUnprotect True \<notin> set tr1"
       "EvWriteUnprotect True \<notin> set tr2" "EvWriteUnprotect True \<notin> set tr3"
       "EvWriteUnprotect True \<notin> set tr5"
    using Finished(1-4,6) by (auto dest: step_events)
  with assms(1) tr have wu: "EvWriteUnprotect True \<in> set tr4" by simp
  have sk: "skip = 0"
  proof (rule ccontr)
    assume "skip \<noteq> 0"
    with Finished(5) have "tr4 = []" by simp
    with wu show False by simp
  qed
  with Finished(5) have fl: "flash_step d major' g = (tr4, Inr ())" by simp
  from flash_step_erase[OF fl wu] e0 e1 e2 e3 e5 show ?thesis
    by (simp add: tr mj)
qed

theorem erase_strategy_by_major_witness:
  "EvWriteUnprotect True \<in> set (fst (main sample_params sample_device)) \<and>
   stm32_get_version sample_device = Some (2, 2) \<and>
   filter is_erase (fst (main sample_params sample_device)) = [EvErase True]"
proof -
  have h1: "EvWriteUnprotect True \<in> set (fst (main sample_params sample_device))"
    by (simp add: sample_run sample_trace_def)
  have h2: "stm32_get_version sample_device = Some (2, 2)"
    by (simp add: sample_device_def)
  from erase_strategy_by_major[OF h1 h2] h1 h2 show ?thesis
    by (simp add: sample_device_def)
qed

subsection \<open>Order of the commands\<close>

lemma identified_append: "identified pre \<Longrightarrow> identified (pre @ xs)"
  by (auto simp: identified_def)

lemma erased_append: "erased pre \<Longrightarrow> erased (pre @ xs)"
  by (auto simp: erased_def)

lemma in_order_append:
  "in_order pre (xs @ ys) = (in_order pre xs \<and> in_order (pre @ xs) ys)"
  by (induction xs arbitrary: pre) simp_all

lemma in_order_free:
  "\<forall>e \<in> set xs. \<not> is_erase e \<and> \<not> is_write_flash e \<and> \<not> is_go e \<Longrightarrow> in_order pre xs"
  by (induction xs arbitrary: pre) (simp_all add: may_issue_def)

lemma in_order_check_params: "check_params p d = (tr, r) \<Longrightarrow> in_order pre tr"
  by (rule in_order_free) (auto dest: step_events event_kinds)

lemma in_order_connect: "connect init t = (tr, r) \<Longrightarrow> in_order pre tr"
  by (rule in_order_free) (auto dest: step_events event_kinds)

lemma in_order_program_step:
  "program_step d g = (tr, r) \<Longrightarrow> identified pre \<Longrightarrow> erased pre \<Longrightarrow> in_order pre tr"
  by (auto dest!: program_step_cases simp: may_issue_def)

lemma in_order_flash_step:
  assumes "flash_step d major g = (tr, r)" and "identified pre"
  shows "in_order pre tr \<and> identified (pre @ tr)"
proof -
  from assms(2) have id1: "identified (pre @ [EvWriteUnprotect True])"
    by (rule identified_append)
  from assms(2) have id2: "identified (pre @ [EvWriteUnprotect True, e])" for e
    by (rule identified_append)
  have er: "erased (pre @ [EvWriteUnprotect True, if major = 3 then EvExtendedErase True else EvErase True])"
    by (simp add: erased_def)
  from assms(1) consider
      "tr = [EvWriteUnprotect False]"
    | "tr = [EvWriteUnprotect True, EvExtendedErase False]"
    | "tr = [EvWriteUnprotect True, EvErase False]"
    | tr' where "tr = [EvWriteUnprotect True,
                  if major = 3 then EvExtendedErase True else EvErase True] @ tr'"
        "program_step d g = (tr', r)"
    by (auto dest!: flash_step_cases)
  then show ?thesis
  proof cases
    case 1
    with assms(2) show ?thesis by (simp add: may_issue_def identified_append)
  next
    case 2
    with assms(2) id1 show ?thesis by (simp add: may_issue_def identified_append)
  next
    case 3
    with assms(2) id1 show ?thesis by (simp add: may_issue_def identified_append)
  next
    case 4
    from in_order_program_step[OF 4(2) id2 er]
    have "in_order (pre @ [EvWriteUnprotect True,
                  if major = 3 then EvExtendedErase True else EvErase True]) tr'" .
    with 4(1) assms(2) id1 show ?thesis
      by (simp add: may_issue_def identified_append in_order_append)
  qed
qed

lemma in_order_go_step: "go_step p d = (tr, r) \<Longrightarrow> identified pre \<Longrightarrow> in_order pre tr"
  by (auto dest!: go_step_cases simp: may_issue_def)

lemma identified_after_chip:
  assumes "connect init t = (tr1, Inr ())" and "version_step d = (tr2, Inr (major, minor))"
    and "chip_id_step d = (tr3, Inr ())"
  shows "identified (tr0 @ tr1 @ tr2 @ tr3)"
proof -
  from assms(1) have "EvInit True \<in> set tr1" by (rule connect_Inr)
  moreover from assms(2) have "tr2 = [EvGetVersion (Some (major, minor))]"
    by (auto dest: version_step_Inr version_step_events)
  moreover from assms(3) obtain v where "tr3 = [EvGetChipId (Some v)]" "v \<in> SupportedChipIds"
    by (auto dest: chip_id_step_Inr chip_id_step_events)
  ultimately show ?thesis by (simp add: identified_def)
qed

lemma in_order_main: "in_order [] (fst (main p d))"
proof (cases p d rule: main_cases)
  case (ParamsFail tr0 out)
  have "in_order [] tr0" using ParamsFail(1) by (rule in_order_check_params)
  then show ?thesis by (simp add: ParamsFail(2))
next
  case (ConnectFail tr0 skip g tr1 out)
  have "in_order [] tr0" using ConnectFail(1) by (rule in_order_check_params)
  moreover have "in_order tr0 tr1" using ConnectFail(2) by (rule in_order_connect)
  ultimately show ?thesis by (simp add: ConnectFail(3) in_order_append)
next
  case (VersionFail tr0 skip g tr1 tr2 out)
  have "in_order [] tr0" using VersionFail(1) by (rule in_order_check_params)
  moreover have "in_order tr0 tr1" using VersionFail(2) by (rule in_order_connect)
  moreover have "in_order (tr0 @ tr1) tr2"
    by (simp add: version_step_events[OF VersionFail(3)] may_issue_def)
  ultimately show ?thesis by (simp add: VersionFail(4) in_order_append)
next
  case (ChipFail tr0 skip g tr1 tr2 major minor tr3 out)
  have "in_order [] tr0" using ChipFail(1) by (rule in_order_check_params)
  moreover have "in_order tr0 tr1" using ChipFail(2) by (rule in_order_connect)
  moreover have "in_order (tr0 @ tr1) tr2"
    by (simp add: version_step_events[OF ChipFail(3)] may_issue_def)
  moreover have "in_order (tr0 @ tr1 @ tr2) tr3"
    by (simp add: chip_id_step_events[OF ChipFail(4)] may_issue_def)
  ultimately show ?thesis by (simp add: ChipFail(5) in_order_append)
next
  case (FlashFail tr0 skip g tr1 tr2 major minor tr3 tr4 out)
  have "in_order [] tr0" using FlashFail(1) by (rule in_order_check_params)
  moreover have "in_order tr0 tr1" using FlashFail(2) by (rule in_order_connect)
  moreover have "in_order (tr0 @ tr1) tr2"
    by (simp add: version_step_events[OF FlashFail(3)] may_issue_def)
  moreover have "in_order (tr0 @ tr1 @ tr2) tr3"
    by (simp add: chip_id_step_events[OF FlashFail(4)] may_issue_def)
  moreover have "in_order (tr0 @ tr1 @ tr2 @ tr3) tr4"
    using in_order_flash_step[OF FlashFail(6) identified_after_chip[OF FlashFail(2-4)]]
    by simp
  ultimately show ?thesis by (simp add: FlashFail(7) in_order_append)
next
  case (Finished tr0 skip g tr1 tr2 major minor tr3 tr4 tr5 r)
  have id: "identified (tr0 @ tr1 @ tr2 @ tr3)"
    using Finished(2-4) by (rule identified_after_chip)
  have fl: "in_order (tr0 @ tr1 @ tr2 @ tr3) tr4 \<and> identified ((tr0 @ tr1 @ tr2 @ tr3) @ tr4)"
  proof (cases "skip = 0")
    case True
    with Finished(5) have "flash_step d major g = (tr4, Inr ())" by simp
    from in_order_flash_step[OF this id] show ?thesis .
  next
    case False
    with Finished(5) have "tr4 = []" by simp
    with id show ?thesis by simp
  qed
  have "in_order [] tr0" using Finished(1) by (rule in_order_check_params)
  moreover have "in_order tr0 tr1" using Finished(2) by (rule in_order_connect)
  moreover have "in_order (tr0 @ tr1) tr2"
    by (simp add: version_step_events[OF Finished(3)] may_issue_def)
  moreover have "in_order (tr0 @ tr1 @ tr2) tr3"
    by (simp add: chip_id_step_events[OF Finished(4)] may_issue_def)
  moreover have "in_order (tr0 @ tr1 @ tr2 @ tr3) tr4" using fl by simp
  moreover have "in_order (tr0 @ tr1 @ tr2 @ tr3 @ tr4) tr5"
    using in_order_go_step[OF Finished(6)] fl by simp
  ultimately show ?thesis by (simp add: Finished(7) in_order_append)
qed

lemma version_obtainedD:
  "version_obtained e \<Longrightarrow> \<exists>major minor. e = EvGetVersion (Some (major, minor))"
  by (cases e rule: version_obtained.cases) auto

lemma chip_supportedD:
  "chip_supported e \<Longrightarrow> \<exists>v \<in> SupportedChipIds. e = EvGetChipId (Some v)"
  by (cases e rule: chip_supported.cases) auto

text \<open>
  C7: in every run, whenever an erase, write-flash or go command is issued, the handshake has
  completed before (a call of \<open>stm32_init\<close> returned OK), the bootloader version and the chip
  ID have been obtained and the chip ID is a supported one; and whenever the write-flash
  step is run, an erase command has returned OK before.
\<close>

theorem commands_in_order:
  assumes "fst (main p d) = pre @ e # post"
  shows "(is_erase e \<or> is_write_flash e \<or> is_go e \<longrightarrow>
            EvInit True \<in> set pre \<and>
            (\<exists>major minor. EvGetVersion (Some (major, minor)) \<in> set pre) \<and>
            (\<exists>v \<in> SupportedChipIds. EvGetChipId (Some v) \<in> set pre)) \<and>
         (is_write_flash e \<longrightarrow> EvErase True \<in> set pre \<or> EvExtendedErase True \<in> set pre)"
proof -
  have "in_order [] (pre @ e # post)" using in_order_main[of p d] assms by simp
  then have mi: "may_issue pre e" by (simp add: in_order_append)
  have "\<exists>major minor. EvGetVersion (Some (major, minor)) \<in> set pre"
    if "\<exists>e \<in> set pre. version_obtained e"
    using that version_obtainedD by blast
  moreover have "\<exists>v \<in> SupportedChipIds. EvGetChipId (Some v) \<in> set pre"
    if "\<exists>e \<in> set pre. chip_supported e"
    using that chip_supportedD by blast
  ultimately show ?thesis using mi
    unfolding may_issue_def identified_def erased_def by blast
qed

theorem commands_in_order_witness:
  "fst (main sample_params sample_device) =
     take 10 sample_trace @ sample_trace ! 10 # drop 11 sample_trace \<and>
   is_write_flash (sample_trace ! 10) \<and>
   EvInit True \<in> set (take 10 sample_trace) \<and>
   EvGetVersion (Some (2, 2)) \<in> set (take 10 sample_trace) \<and>
   EvGetChipId (Some 0x0410) \<in> set (take 10 sample_trace) \<and>
   EvErase True \<in> set (take 10 sample_trace)"
proof -
  have h: "fst (main sample_params sample_device) =
     take 10 sample_trace @ sample_trace ! 10 # drop 11 sample_trace"
    by (simp add: sample_run sample_trace_def)
  from commands_in_order[OF h] h show ?thesis by (simp add: sample_trace_def)
qed

subsection \<open>The file argument "0"\<close>

lemma main_skipping:
  assumes "check_params p d = ([], Inr (skip, g))" and "skip \<noteq> 0"
  shows "main p d =
           finish
            (bind_step (connect (stm32_init d (port p) (baudrate p)) 0) (\<lambda>_.
             bind_step (version_step d) (\<lambda>_.
             bind_step (chip_id_step d) (\<lambda>_.
             go_step p d))))"
proof -
  have "bind_step (([], Inr ()) :: unit step) f = f ()" for f :: "unit \<Rightarrow> unit step"
    by (cases "f ()") simp
  then show ?thesis using assms
    by (simp add: main_def split_def)
qed

text \<open>
  C8: if the file argument is the one-character string "0", the run is the run with the skip
  flag set: no file is opened, no write-unprotect, erase or write-flash command is issued,
  and after the chip ID check comes the go step.
\<close>

theorem file_zero_skips_flashing:
  assumes "bin_file p = ''0''"
  shows "main p d = main (p\<lparr>skip_flash := 1\<rparr>) d \<and>
         (\<forall>e \<in> set (fst (main p d)).
            \<not> is_fopen e \<and> \<not> is_write_unprotect e \<and> \<not> is_erase e \<and> \<not> is_write_flash e) \<and>
         (port p \<noteq> [] \<longrightarrow>
            main p d =
              finish
               (bind_step (connect (stm32_init d (port p) (baudrate p)) 0) (\<lambda>_.
                bind_step (version_step d) (\<lambda>_.
                bind_step (chip_id_step d) (\<lambda>_.
                go_step p d)))))"
proof -
  let ?p' = "p\<lparr>skip_flash := 1\<rparr>"
  define skip where "skip = (if skip_flash p = 0 then 1 else skip_flash p)"
  have sk: "skip \<noteq> 0" by (simp add: skip_def)
  have cp: "check_params p d =
      (if port p = [] then ([], Inl (Exit1 NoPort)) else ([], Inr (skip, globals0)))"
    using assms by (simp add: check_params_def strlen_def strncmp_equal_def skip_def)
  have cp': "check_params ?p' d =
      (if port p = [] then ([], Inl (Exit1 NoPort)) else ([], Inr (1, globals0)))"
    by (simp add: check_params_def)
  have go: "go_step ?p' d = go_step p d"
    by (simp add: go_step_def)
  have c: "main p d =
              finish
               (bind_step (connect (stm32_init d (port p) (baudrate p)) 0) (\<lambda>_.
                bind_step (version_step d) (\<lambda>_.
                bind_step (chip_id_step d) (\<lambda>_.
                go_step p d))))" if "port p \<noteq> []"
    using that cp sk by (intro main_skipping[of p d skip globals0]) simp_all
  have a: "main p d = main ?p' d"
  proof (cases "port p = []")
    case True
    with cp cp' show ?thesis by (simp add: main_def)
  next
    case False
    with cp' have "check_params ?p' d = ([], Inr (1, globals0))" by simp
    from main_skipping[OF this] have "main ?p' d =
              finish
               (bind_step (connect (stm32_init d (port p) (baudrate p)) 0) (\<lambda>_.
                bind_step (version_step d) (\<lambda>_.
                bind_step (chip_id_step d) (\<lambda>_.
                go_step p d))))"
      by (simp add: go)
    with c[OF False] show ?thesis by simp
  qed
  have b: "\<not> is_fopen e \<and> \<not> is_write_unprotect e \<and> \<not> is_erase e \<and> \<not> is_write_flash e"
    if e: "e \<in> set (fst (main p d))" for e
  proof (cases p d rule: main_cases)
    case (ParamsFail tr0 out)
    with e cp show ?thesis by (auto split: if_splits)
  next
    case (ConnectFail tr0 skip' g tr1 out)
    from ConnectFail(1) cp have "tr0 = []" by (auto split: if_splits)
    with e ConnectFail show ?thesis by (auto dest: step_events)
  next
    case (VersionFail tr0 skip' g tr1 tr2 out)
    from VersionFail(1) cp have "tr0 = []" by (auto split: if_splits)
    with e VersionFail show ?thesis by (auto dest: step_events)
  next
    case (ChipFail tr0 skip' g tr1 tr2 major minor tr3 out)
    from ChipFail(1) cp have "tr0 = []" by (auto split: if_splits)
    with e ChipFail show ?thesis by (auto dest: step_events)
  next
    case (FlashFail tr0 skip' g tr1 tr2 major minor tr3 tr4 out)
    from FlashFail(1) cp have "skip' = skip" by (auto split: if_splits)
    with FlashFail(5) sk show ?thesis by simp
  next
    case (Finished tr0 skip' g tr1 tr2 major minor tr3 tr4 tr5 r)
    from Finished(1) cp have "tr0 = []" "skip' = skip" by (auto split: if_splits)
    with Finished(5) sk have "tr4 = []" by simp
    with e Finished \<open>tr0 = []\<close> show ?thesis by (auto dest: step_events event_kinds)
  qed
  from a b c show ?thesis by blast
qed

theorem file_zero_skips_flashing_witness:
  "bin_file zero_file_params = ''0'' \<and> skip_flash zero_file_params = 0 \<and>
   main zero_file_params sample_device = main (zero_file_params\<lparr>skip_flash := 1\<rparr>) sample_device \<and>
   main zero_file_params sample_device =
     ([EvInit False, EvSleep 1, EvInit False, EvSleep 1, EvInit True,
       EvGetVersion (Some (2, 2)), EvGetChipId (Some 0x0410), EvGo True], Return0)"
proof -
  have h1: "bin_file zero_file_params = ''0''"
    by (simp add: zero_file_params_def)
  have h2: "skip_flash zero_file_params = 0"
    by (simp add: zero_file_params_def sample_params_def)
  have h3: "port zero_file_params \<noteq> []"
    by (simp add: zero_file_params_def sample_params_def)
  note run = file_zero_skips_flashing[OF h1, of sample_device]
  from run have a: "main zero_file_params sample_device =
      main (zero_file_params\<lparr>skip_flash := 1\<rparr>) sample_device"
    by (rule conjunct1)
  from run h3 have "main zero_file_params sample_device =
      finish
       (bind_step (connect (stm32_init sample_device (port zero_file_params)
                     (baudrate zero_file_params)) 0) (\<lambda>_.
        bind_step (version_step sample_device) (\<lambda>_.
        bind_step (chip_id_step sample_device) (\<lambda>_.
        go_step zero_file_params sample_device))))"
    by blast
  also have "\<dots> =
     ([EvInit False, EvSleep 1, EvInit False, EvSleep 1, EvInit True,
       EvGetVersion (Some (2, 2)), EvGetChipId (Some 0x0410), EvGo True], Return0)"
    by (simp add: zero_file_params_def sample_params_def sample_device_def connect.simps
        nack_then_ack_def version_step_def BL_MKVER_def BL_MINVERSION_def
        BL_VERSION_MAJOR_def BL_VERSION_MINOR_def chip_id_step_Some SupportedChipIds_eq
        go_step_def command_def)
  finally have c: "main zero_file_params sample_device =
     ([EvInit False, EvSleep 1, EvInit False, EvSleep 1, EvInit True,
       EvGetVersion (Some (2, 2)), EvGetChipId (Some 0x0410), EvGo True], Return0)" .
  from h1 h2 a c show ?thesis by blast
qed

subsection \<open>The progress callback\<close>

lemma pwrite_le_100:
  fixes fpsz wrote :: u32
  assumes "fpsz \<noteq> 0" and "wrote \<le> fpsz"
  shows "uint ((wrote * 100) div fpsz) \<le> 100"
proof -
  have pos: "0 < unat fpsz" using assms(1) by (simp add: unat_gt_0)
  have m: "unat (wrote * 100) = (unat wrote * unat (100 :: u32)) mod 2 ^ LENGTH(32)"
    by (rule unat_word_ariths(2))
  have c: "unat (100 :: u32) = 100" by simp
  have "unat (wrote * 100) \<le> unat wrote * 100"
    unfolding m c by (rule mod_less_eq_dividend)
  also have "\<dots> \<le> unat fpsz * 100"
    using assms(2) by (simp add: word_le_nat_alt)
  finally have "unat (wrote * 100) div unat fpsz \<le> (unat fpsz * 100) div unat fpsz"
    by (rule div_le_mono)
  also have "\<dots> = 100" using pos by simp
  finally have "unat ((wrote * 100) div fpsz) \<le> 100"
    by (simp only: unat_div)
  moreover have "uint ((wrote * 100) div fpsz) = int (unat ((wrote * 100) div fpsz))"
    by (rule uint_nat)
  ultimately show ?thesis by linarith
qed

lemma writeh_progress_next:
  assumes "fpsz \<noteq> 0" and "j \<le> 10"
  shows "writeh_progress fpsz wrote (10 * int (Suc j)) =
     (if 10 * int (Suc j) \<le> uint ((wrote * 100) div fpsz)
      then Inr (Some (10 * int (Suc j)), 10 * int (Suc (Suc j)))
      else Inr (None, 10 * int (Suc j)))"
proof -
  have "10 * int (Suc j) mod 2 ^ 32 = 10 * int (Suc j)"
    using assms(2) by simp
  moreover have "\<not> 10 * int (Suc j) + 10 > INT_MAX"
    using assms(2) by (simp add: INT_MAX_def)
  ultimately show ?thesis using assms(1)
    by (simp add: writeh_progress_def Let_def)
qed

lemma progress_calls_from:
  assumes "fpsz \<noteq> 0" and "\<forall>w \<in> set ws. w \<le> fpsz" and "j \<le> 10"
  shows "\<exists>m. j + m \<le> 10 \<and> m \<le> length ws \<and>
           progress_calls fpsz (10 * int (Suc j)) ws =
             Inr (map (\<lambda>i. 10 * int i) [Suc j ..< Suc (j + m)], 10 * int (Suc (j + m)))"
  using assms(2,3)
proof (induction ws arbitrary: j)
  case Nil
  then show ?case by simp
next
  case (Cons w ws)
  from Cons.prems have w: "w \<le> fpsz" and ws: "\<forall>w \<in> set ws. w \<le> fpsz" by simp_all
  note step = writeh_progress_next[OF assms(1) Cons.prems(2), of w]
  show ?case
  proof (cases "10 * int (Suc j) \<le> uint ((w * 100) div fpsz)")
    case True
    with pwrite_le_100[OF assms(1) w] have j: "Suc j \<le> 10" by simp
    from Cons.IH[OF ws j] obtain m where m: "Suc j + m \<le> 10" "m \<le> length ws"
      "progress_calls fpsz (10 * int (Suc (Suc j))) ws =
         Inr (map (\<lambda>i. 10 * int i) [Suc (Suc j) ..< Suc (Suc j + m)], 10 * int (Suc (Suc j + m)))"
      by blast
    have "[Suc j ..< Suc (j + Suc m)] = Suc j # [Suc (Suc j) ..< Suc (Suc j + m)]"
      by (simp add: upt_conv_Cons)
    with m True step show ?thesis
      by (intro exI[of _ "Suc m"]) simp
  next
    case False
    from Cons.IH[OF ws Cons.prems(2)] obtain m where m: "j + m \<le> 10" "m \<le> length ws"
      "progress_calls fpsz (10 * int (Suc j)) ws =
         Inr (map (\<lambda>i. 10 * int i) [Suc j ..< Suc (j + m)], 10 * int (Suc (j + m)))"
      by blast
    with False step show ?thesis
      by (intro exI[of _ m]) simp
  qed
qed

lemma writeh_progress_reached:
  assumes "writeh_progress fpsz w en = Inr (printed, en')" and "0 \<le> en" and "en \<le> INT_MAX"
  shows "0 \<le> en' \<and> en' \<le> INT_MAX \<and>
         (\<forall>t. printed = Some t \<longrightarrow> t \<le> uint ((w * 100) div fpsz))"
proof -
  from assms(2,3) have "en mod 2 ^ 32 = en" by (simp add: INT_MAX_def)
  with assms show ?thesis
    by (auto simp: writeh_progress_def Let_def split: if_splits)
qed

lemma progress_calls_reached:
  assumes "progress_calls fpsz en ws = Inr (out, e)" and "0 \<le> en" and "en \<le> INT_MAX"
  shows "\<forall>t \<in> set out. \<exists>w \<in> set ws. t \<le> uint ((w * 100) div fpsz)"
  using assms
proof (induction ws arbitrary: en out)
  case Nil
  then show ?case by simp
next
  case (Cons w ws)
  from Cons.prems(1) obtain printed en' out' where
    step: "writeh_progress fpsz w en = Inr (printed, en')"
    and rest: "progress_calls fpsz en' ws = Inr (out', e)"
    and out: "out = (case printed of None \<Rightarrow> [] | Some t \<Rightarrow> [t]) @ out'"
    by (auto split: sum.splits prod.splits)
  from writeh_progress_reached[OF step Cons.prems(2,3)]
  have en': "0 \<le> en'" "en' \<le> INT_MAX"
    and pr: "\<forall>t. printed = Some t \<longrightarrow> t \<le> uint ((w * 100) div fpsz)"
    by simp_all
  from Cons.IH[OF rest en']
  have "\<forall>t \<in> set out'. \<exists>w \<in> set ws. t \<le> uint ((w * 100) div fpsz)" .
  with pr show ?case by (auto simp: out split: option.splits)
qed

lemma nondecreasing_le_last:
  "nondecreasing ws \<Longrightarrow> ws \<noteq> [] \<Longrightarrow> \<forall>w \<in> set ws. w \<le> last ws"
  by (induction ws rule: nondecreasing.induct) auto

lemma progress_calls_append:
  "progress_calls fpsz en (xs @ ys) =
     (case progress_calls fpsz en xs of
        Inl flt \<Rightarrow> Inl flt
      | Inr (out, e) \<Rightarrow>
          (case progress_calls fpsz e ys of
             Inl flt \<Rightarrow> Inl flt
           | Inr (out', e') \<Rightarrow> Inr (out @ out', e')))"
  by (induction xs arbitrary: en) (auto split: sum.splits prod.splits)

lemma progress_calls_one_boundary:
  assumes "fpsz \<noteq> 0"
  shows "\<forall>w \<in> set ws. w \<le> fpsz \<Longrightarrow> j \<le> 10 \<Longrightarrow>
         one_boundary_steps prev (map (percentage fpsz) ws) \<Longrightarrow> prev div 10 = int j \<Longrightarrow>
         \<exists>m. j \<le> m \<and> int m = last (prev # map (percentage fpsz) ws) div 10 \<and>
             progress_calls fpsz (10 * int (Suc j)) ws =
               Inr (map (\<lambda>i. 10 * int i) [Suc j ..< Suc m], 10 * int (Suc m))"
proof (induction ws arbitrary: j prev)
  case Nil
  then show ?case by (intro exI[of _ j]) simp
next
  case (Cons w ws)
  let ?q = "percentage fpsz w"
  from Cons.prems(1) have w: "w \<le> fpsz" and ws: "\<forall>w \<in> set ws. w \<le> fpsz" by simp_all
  from Cons.prems(3) have up: "prev \<le> ?q" and one: "?q div 10 \<le> prev div 10 + 1"
    and rest: "one_boundary_steps ?q (map (percentage fpsz) ws)" by simp_all
  have q100: "?q \<le> 100" unfolding percentage_def by (rule pwrite_le_100[OF assms w])
  note step = writeh_progress_next[OF assms Cons.prems(2), of w, folded percentage_def]
  show ?case
  proof (cases "10 * int (Suc j) \<le> ?q")
    case True
    with q100 have j: "Suc j \<le> 10" by simp
    from zdiv_mono1[OF True, of 10] have "int (Suc j) \<le> ?q div 10" by simp
    with one Cons.prems(4) have qd: "?q div 10 = int (Suc j)" by simp
    from Cons.IH[OF ws j rest qd] obtain m where m: "Suc j \<le> m"
      "int m = last (?q # map (percentage fpsz) ws) div 10"
      "progress_calls fpsz (10 * int (Suc (Suc j))) ws =
         Inr (map (\<lambda>i. 10 * int i) [Suc (Suc j) ..< Suc m], 10 * int (Suc m))"
      by blast
    from m(1) have "[Suc j ..< Suc m] = Suc j # [Suc (Suc j) ..< Suc m]"
      by (simp add: upt_conv_Cons)
    with m True step show ?thesis
      by (intro exI[of _ m]) simp
  next
    case False
    from zdiv_mono1[OF up, of 10] Cons.prems(4) have lo: "int j \<le> ?q div 10" by simp
    from False have "?q \<le> 10 * int j + 9" by simp
    from zdiv_mono1[OF this, of 10] have "?q div 10 \<le> int j" by simp
    with lo have qd: "?q div 10 = int j" by simp
    from Cons.IH[OF ws Cons.prems(2) rest qd] obtain m where m: "j \<le> m"
      "int m = last (?q # map (percentage fpsz) ws) div 10"
      "progress_calls fpsz (10 * int (Suc j)) ws =
         Inr (map (\<lambda>i. 10 * int i) [Suc j ..< Suc m], 10 * int (Suc m))"
      by blast
    with False step show ?thesis
      by (intro exI[of _ m]) simp
  qed
qed

text \<open>
  C1, as stated: the callback fires at each 10% boundary exactly once, also when one
  invocation crosses several boundaries. It fails for a file of 512 bytes written in two
  blocks of 256: the invocations see 50% and 100% and print 10 and 20 only, since one
  invocation prints at most one threshold. A single invocation at 100% prints 10 only.
\<close>

theorem progress_thresholds_counterexample:
  "nondecreasing [256, 512] \<and> last [256, 512] = (512 :: u32) \<and>
   printed_thresholds 512 [256, 512] = Some [10, 20] \<and>
   printed_thresholds 512 [256, 512] \<noteq> Some [10, 20, 30, 40, 50, 60, 70, 80, 90, 100] \<and>
   printed_thresholds 512 [512] = Some [10]"
  by (simp add: printed_thresholds_def writeh_progress_def INT_MAX_def)

text \<open>
  C1, amended: for a total size above 0 and any sequence of invocations with
  \<open>wrote \<le> fpsize\<close> (so for every non-decreasing sequence that ends at \<open>fpsize\<close>, by
  \<open>nondecreasing_le_last\<close>), no invocation faults and the thresholds printed are
  10, 20, ..., \<open>10 * k\<close> in this order, each once, for some \<open>k \<le> 10\<close> that is at most the
  number of invocations: at most 10 thresholds, none above 100, each reached by the
  percentage \<open>wrote * 100 / fpsize\<close> of some invocation. One more invocation prints exactly
  the next pending threshold \<open>10 * (k + 1)\<close> if its percentage has reached it, and nothing
  otherwise, however many boundaries it crosses. If the percentages never go down and no
  invocation passes more than one multiple of 10 beyond the invocation before it (starting
  from 0), every boundary reached is printed: \<open>k\<close> is the last percentage divided by 10, so
  all of 10, ..., 100 are printed once each when the last percentage is 100.
\<close>

theorem progress_thresholds:
  assumes "fpsz \<noteq> 0" and "\<forall>w \<in> set ws. w \<le> fpsz"
  shows "\<exists>k. k \<le> 10 \<and> k \<le> length ws \<and>
           printed_thresholds fpsz ws = Some (thresholds k) \<and>
           (\<forall>t \<in> set (thresholds k). \<exists>w \<in> set ws. t \<le> percentage fpsz w) \<and>
           (\<forall>w. w \<le> fpsz \<longrightarrow>
              printed_thresholds fpsz (ws @ [w]) =
                Some (if 10 * int (Suc k) \<le> percentage fpsz w
                      then thresholds k @ [10 * int (Suc k)] else thresholds k)) \<and>
           (one_boundary_steps 0 (map (percentage fpsz) ws) \<longrightarrow>
              int k = last (0 # map (percentage fpsz) ws) div 10)"
proof -
  from progress_calls_from[OF assms, of 0] obtain m where m: "m \<le> 10" "m \<le> length ws"
    and run: "progress_calls fpsz 10 ws = Inr (thresholds m, 10 * int (Suc m))"
    by (auto simp: thresholds_def)
  from progress_calls_reached[OF run]
  have reached: "\<forall>t \<in> set (thresholds m). \<exists>w \<in> set ws. t \<le> percentage fpsz w"
    by (simp add: INT_MAX_def percentage_def)
  have snoc: "printed_thresholds fpsz (ws @ [w]) =
                Some (if 10 * int (Suc m) \<le> percentage fpsz w
                      then thresholds m @ [10 * int (Suc m)] else thresholds m)"
    if "w \<le> fpsz" for w
    using writeh_progress_next[OF assms(1) m(1), of w, folded percentage_def] run
    by (simp add: printed_thresholds_def progress_calls_append)
  have exact: "int m = last (0 # map (percentage fpsz) ws) div 10"
    if "one_boundary_steps 0 (map (percentage fpsz) ws)"
  proof -
    from progress_calls_one_boundary[OF assms(1) assms(2) _ that, of 0]
    obtain m' where m': "int m' = last (0 # map (percentage fpsz) ws) div 10"
      and run': "progress_calls fpsz 10 ws =
                   Inr (map (\<lambda>i. 10 * int i) [1 ..< Suc m'], 10 * int (Suc m'))"
      by auto
    from run run' have "10 * int (Suc m) = 10 * int (Suc m')" by simp
    then have "m = m'" by simp
    with m' show ?thesis by simp
  qed
  from m run reached snoc exact show ?thesis
    by (intro exI[of _ m]) (simp add: printed_thresholds_def)
qed

theorem progress_thresholds_witness:
  "(1000 :: u32) \<noteq> 0 \<and>
   list_all (\<lambda>w. w \<le> (1000 :: u32)) [100, 200, 300, 400, 500, 600, 700, 800, 900, 1000] \<and>
   one_boundary_steps 0
     (map (percentage 1000) [100, 200, 300, 400, 500, 600, 700, 800, 900, 1000]) \<and>
   last (0 # map (percentage 1000) [100, 200, 300, 400, 500, 600, 700, 800, 900, 1000]) = 100 \<and>
   printed_thresholds 1000 [100, 200, 300, 400, 500, 600, 700, 800, 900, 1000] =
     Some [10, 20, 30, 40, 50, 60, 70, 80, 90, 100]"
proof -
  let ?ws = "[100, 200, 300, 400, 500, 600, 700, 800, 900, 1000] :: u32 list"
  have h1: "(1000 :: u32) \<noteq> 0" by simp
  have h2: "\<forall>w \<in> set ?ws. w \<le> (1000 :: u32)" by simp
  have h3: "one_boundary_steps 0 (map (percentage 1000) ?ws)"
    by (simp add: percentage_def)
  have h4: "last (0 # map (percentage 1000) ?ws) = 100"
    by (simp add: percentage_def)
  from progress_thresholds[OF h1 h2] h3 obtain k where
    k: "printed_thresholds 1000 ?ws = Some (thresholds k)"
    and "int k = last (0 # map (percentage 1000) ?ws) div 10"
    by blast
  with h4 have "k = 10" by simp
  moreover have "thresholds 10 = [10, 20, 30, 40, 50, 60, 70, 80, 90, 100]"
    by (simp add: thresholds_def upt_rec)
  ultimately have "printed_thresholds 1000 ?ws = Some [10, 20, 30, 40, 50, 60, 70, 80, 90, 100]"
    using k by simp
  with h1 h2 h3 h4 show ?thesis by simp
qed

subsection \<open>An empty file\<close>





lemma write_flash_faults_on_zero_size:
  "acks 0 \<Longrightarrow>
     stm32_write_flash_spec acks base 256 0 (rewound [1]) =
       ([WriteMemory base [1] True, Progress 1 None], Inl DivByZero)"
  by (simp add: stm32_write_flash_spec_def write_flash_loop.simps writeh_read_data_def
      fread_def rewound_def writeh_progress_def Let_def)





end
